theory Spec2Isabelle
  imports Main
begin

section \<open>Python values, errors and string operations\<close>

text \<open>
  The notebook \<^verbatim>\<open>LinguistSearch.ipynb\<close> scrapes a paginated listing site into a
  dictionary of document records. Its functions are embedded as HOL functions. A Python
  exception is a value \<open>Inl e\<close> of a sum type; a normal return is \<open>Inr v\<close>.

  A Python 2 \<^verbatim>\<open>unicode\<close> string is modelled as \<open>string\<close>: a list of code points
  below 256, where \<^verbatim>\<open>lower\<close> and \<^verbatim>\<open>strip\<close> act as Python does on these code
  points. Code points from 256 on are outside the model. A Python integer object is an
  \<open>int\<close>; whether Python 2 gives it the type \<^verbatim>\<open>int\<close> or \<^verbatim>\<open>long\<close> is read
  from its value (\<open>is_py_int\<close> below).
\<close>

datatype py_error = AttributeError | ValueError | IndexError | TypeError | URLError

definition nl :: char where
  "nl = CHR 0x0A"

definition is_digit :: "char \<Rightarrow> bool" where
  "is_digit c = (c \<in> set ''0123456789'')"

text \<open>
  The upper-case letters below 256: \<^verbatim>\<open>A\<close> to \<^verbatim>\<open>Z\<close> (65 to 90) and the accented
  capitals 192 to 222 without the multiplication sign 215. The lower-case letter of each
  is 32 above.
\<close>

definition is_upper :: "char \<Rightarrow> bool" where
  "is_upper c =
     ((65 \<le> (of_char c :: nat) \<and> (of_char c :: nat) \<le> 90) \<or>
      (192 \<le> (of_char c :: nat) \<and> (of_char c :: nat) \<le> 222 \<and> (of_char c :: nat) \<noteq> 215))"

definition lower_char :: "char \<Rightarrow> char" where
  "lower_char c = (if is_upper c then char_of (of_char c + (32::nat)) else c)"

text \<open>\<^verbatim>\<open>s.lower()\<close>\<close>

definition lower :: "string \<Rightarrow> string" where
  "lower s = map lower_char s"

text \<open>
  The white space of \<^verbatim>\<open>unicode.strip()\<close> below 256: the space, the codes 9 to 13 and
  28 to 31, the next-line control 133 and the no-break space 160.
\<close>

definition is_space :: "char \<Rightarrow> bool" where
  "is_space c =
     (c \<in> set [CHR 0x20, CHR 0x09, CHR 0x0A, CHR 0x0B, CHR 0x0C, CHR 0x0D,
                CHR 0x1C, CHR 0x1D, CHR 0x1E, CHR 0x1F, CHR 0x85, CHR 0xA0])"

text \<open>\<^verbatim>\<open>s.strip()\<close>\<close>

definition strip :: "string \<Rightarrow> string" where
  "strip s = rev (dropWhile is_space (rev (dropWhile is_space s)))"

text \<open>\<^verbatim>\<open>s.split(sep)\<close> for a one-character separator: never the empty list.\<close>

fun split_on :: "char \<Rightarrow> string \<Rightarrow> string list" where
  "split_on sep [] = [[]]"
| "split_on sep (c # cs) =
     (if c = sep then [] # split_on sep cs
      else (let r = split_on sep cs in (c # hd r) # tl r))"

text \<open>\<^verbatim>\<open>sep.join(xs)\<close>\<close>

fun join :: "string \<Rightarrow> string list \<Rightarrow> string" where
  "join sep [] = []"
| "join sep [x] = x"
| "join sep (x # y # ys) = x @ sep @ join sep (y # ys)"

text \<open>\<^verbatim>\<open>str(val.encode("ascii", "ignore"))\<close>: characters outside ASCII are dropped.\<close>

definition ascii_ignore :: "string \<Rightarrow> string" where
  "ascii_ignore s = filter (\<lambda>c. (of_char c :: nat) < 128) s"

text \<open>\<^verbatim>\<open>xs.index(x)\<close>: the first position of \<open>x\<close>, or \<^verbatim>\<open>ValueError\<close>.\<close>

fun index_of :: "'a list \<Rightarrow> 'a \<Rightarrow> py_error + nat" where
  "index_of [] x = Inl ValueError"
| "index_of (y # ys) x =
     (if y = x then Inr 0
      else (case index_of ys x of Inl e \<Rightarrow> Inl e | Inr n \<Rightarrow> Inr (Suc n)))"

text \<open>\<^verbatim>\<open>xs[i]\<close>: a negative index counts from the end; out of range is \<^verbatim>\<open>IndexError\<close>.\<close>

definition item :: "'a list \<Rightarrow> int \<Rightarrow> py_error + 'a" where
  "item xs i =
     (if 0 \<le> i \<and> i < int (length xs) then Inr (xs ! nat i)
      else if i < 0 \<and> - int (length xs) \<le> i then Inr (xs ! nat (int (length xs) + i))
      else Inl IndexError)"

definition clamp_index :: "nat \<Rightarrow> int \<Rightarrow> nat" where
  "clamp_index n i = (if i < 0 then nat (max 0 (int n + i)) else min n (nat i))"

text \<open>\<^verbatim>\<open>xs[i:j]\<close>: never raises.\<close>

definition slice :: "'a list \<Rightarrow> int \<Rightarrow> int \<Rightarrow> 'a list" where
  "slice xs i j =
     (let a = clamp_index (length xs) i; b = clamp_index (length xs) j
      in take (b - a) (drop a xs))"

text \<open>\<^verbatim>\<open>xs[xs.index(marker) + 1]\<close>\<close>

definition after_marker :: "string list \<Rightarrow> string \<Rightarrow> py_error + string" where
  "after_marker xs marker =
     (case index_of xs marker of Inl e \<Rightarrow> Inl e | Inr i \<Rightarrow> item xs (int i + 1))"

text \<open>
  The venue: the line after the marker, \<^verbatim>\<open>'N/A'\<close> when the lookup raises
  \<^verbatim>\<open>ValueError\<close>. Another exception is not caught.
\<close>

definition published_in :: "string list \<Rightarrow> py_error + string" where
  "published_in text_body =
     (case after_marker text_body ''published in:'' of
        Inl ValueError \<Rightarrow> Inr ''N/A''
      | Inl e \<Rightarrow> Inl e
      | Inr v \<Rightarrow> Inr v)"

section \<open>Document records\<close>

text \<open>
  A record is a Python dictionary with the keys \<^verbatim>\<open>ref, tit, dat, aut, pub, kwd, cnt, exc\<close>.
  Before the normalization pass \<^verbatim>\<open>kwd\<close> and \<^verbatim>\<open>cnt\<close> hold raw text; after it
  \<^verbatim>\<open>kwd\<close> holds a list and \<^verbatim>\<open>cnt\<close> an integer. The pass tests the type at run
  time, so both fields carry a tag. \<open>CntInt n\<close> is an integer object of value \<open>n\<close>, of
  the type \<^verbatim>\<open>int\<close> or \<^verbatim>\<open>long\<close>.
\<close>

datatype cnt_val = CntStr string | CntInt int

datatype kwd_val = KwdStr string | KwdList "string list"

record article =
  ref :: string
  tit :: string
  dat :: string
  aut :: "string list"
  pub :: string
  kwd :: kwd_val
  cnt :: cnt_val
  exc :: string

section \<open>The document parser\<close>

text \<open>
  What \<^verbatim>\<open>BeautifulSoup(html_doc, "html5lib")\<close> gives \<^verbatim>\<open>parse_doc\<close>:
  \<open>center_text\<close> is \<^verbatim>\<open>parsed.body.center.get_text("\n", strip = True)\<close>, or \<open>None\<close>
  when the body has no \<^verbatim>\<open>center\<close> element (the attribute access then raises
  \<^verbatim>\<open>AttributeError\<close>); \<open>body_text\<close> is \<^verbatim>\<open>parsed.body.get_text("\n", strip = True)\<close>
  (html5lib always builds a body). The argument of \<open>parse_doc\<close> is \<open>None\<close> when the
  parsed object is falsy.
\<close>

record soup =
  center_text :: "string option"
  body_text :: string

definition head_lines :: "string \<Rightarrow> string list" where
  "head_lines ct = split_on nl (lower ct)"

definition body_lines :: "soup \<Rightarrow> string list" where
  "body_lines parsed = split_on nl (lower (body_text parsed))"

definition parse_doc :: "soup option \<Rightarrow> string \<Rightarrow> py_error + article option" where
  "parse_doc html_doc doc_id =
     (case html_doc of
        None \<Rightarrow> Inr None
      | Some parsed \<Rightarrow>
         (case center_text parsed of
            None \<Rightarrow> Inl AttributeError
          | Some ct \<Rightarrow>
             (let text_head = head_lines ct; text_body = body_lines parsed in
              (case item text_head 0 of Inl e \<Rightarrow> Inl e | Inr tit_v \<Rightarrow>
              (case item text_head (- 1) of Inl e \<Rightarrow> Inl e | Inr dat_v \<Rightarrow>
              (let aut_v = map ascii_ignore
                             (filter (\<lambda>val. val \<noteq> '','') (slice text_head 1 (- 1))) in
              (case published_in text_body of Inl e \<Rightarrow> Inl e | Inr pub_v \<Rightarrow>
              (case after_marker text_body ''keywords:'' of Inl e \<Rightarrow> Inl e | Inr kwd_v \<Rightarrow>
              (case after_marker text_body ''downloaded:'' of Inl e \<Rightarrow> Inl e | Inr cnt_v \<Rightarrow>
              (case index_of text_body dat_v of Inl e \<Rightarrow> Inl e | Inr i \<Rightarrow>
              (case index_of text_body ''format:'' of Inl e \<Rightarrow> Inl e | Inr j \<Rightarrow>
                 Inr (Some \<lparr>ref = doc_id, tit = tit_v, dat = dat_v, aut = aut_v, pub = pub_v,
                            kwd = KwdStr kwd_v, cnt = CntStr cnt_v,
                            exc = join '' '' (slice text_body (int i + 1) (int j))\<rparr>))))))))))))"

section \<open>The normalization pass\<close>

text \<open>\<^verbatim>\<open>re.search(r'\d+', s)\<close> and \<^verbatim>\<open>.group()\<close>: the first run of digits, if any.\<close>

definition re_search_digits :: "string \<Rightarrow> string option" where
  "re_search_digits s =
     (let r = dropWhile (\<lambda>c. \<not> is_digit c) s
      in if r = [] then None else Some (takeWhile is_digit r))"

definition digit_val :: "char \<Rightarrow> int" where
  "digit_val c = int (of_char c) - 48"

text \<open>\<^verbatim>\<open>int(s)\<close> on a run of decimal digits.\<close>

definition py_int :: "string \<Rightarrow> int" where
  "py_int s = foldl (\<lambda>n c. 10 * n + digit_val c) 0 s"

text \<open>
  An integer object of Python 2 has the type \<^verbatim>\<open>int\<close> when its value lies between
  \<^verbatim>\<open>-sys.maxint - 1\<close> and \<^verbatim>\<open>sys.maxint\<close>, and the type \<^verbatim>\<open>long\<close> otherwise:
  \<^verbatim>\<open>int()\<close> and \<^verbatim>\<open>json.load\<close> both return their results so. \<open>sys_maxint\<close> is the
  value of a 64-bit Unix build; the other builds have \<open>2 ^ 31 - 1\<close>.
\<close>

definition sys_maxint :: int where
  "sys_maxint = 2 ^ 63 - 1"

definition is_py_int :: "int \<Rightarrow> bool" where
  "is_py_int n = (- sys_maxint - 1 \<le> n \<and> n \<le> sys_maxint)"

text \<open>\<^verbatim>\<open>re.sub(r'[;:.\,()]', '', s)\<close>\<close>

definition re_sub_punct :: "string \<Rightarrow> string" where
  "re_sub_punct s = filter (\<lambda>c. c \<notin> set '';:.,()'') s"

text \<open>
  The body of the loop of the pass, for one record. The test \<^verbatim>\<open>type(cnt) != int\<close>
  holds for text and for a \<^verbatim>\<open>long\<close>; \<^verbatim>\<open>re.search\<close> on a \<^verbatim>\<open>long\<close> raises
  \<^verbatim>\<open>TypeError\<close>.
\<close>

definition normalize_record :: "article \<Rightarrow> py_error + article" where
  "normalize_record r =
     (case (case cnt r of
              CntInt n \<Rightarrow> if is_py_int n then Inr (CntInt n) else Inl TypeError
            | CntStr s \<Rightarrow>
                (case re_search_digits s of
                   None \<Rightarrow> Inl AttributeError
                 | Some g \<Rightarrow> Inr (CntInt (py_int g)))) of
        Inl e \<Rightarrow> Inl e
      | Inr c \<Rightarrow>
          Inr (r\<lparr>cnt := c,
                 exc := lower (re_sub_punct (exc r)),
                 kwd := (case kwd r of
                           KwdList ks \<Rightarrow> KwdList (map lower ks)
                         | KwdStr s \<Rightarrow> KwdList (map (\<lambda>kw. lower (strip kw)) (split_on CHR '','' s)))\<rparr>))"

text \<open>
  The store \<^verbatim>\<open>ref_dict\<close>: a dictionary from identifiers to records, as an association
  list with distinct keys. An entry is \<open>None\<close> where \<^verbatim>\<open>parse_doc\<close> returned
  \<^verbatim>\<open>None\<close>; subscripting it raises \<^verbatim>\<open>TypeError\<close>.
\<close>

type_synonym store = "(string \<times> article option) list"

fun normalization_pass :: "store \<Rightarrow> py_error + store" where
  "normalization_pass [] = Inr []"
| "normalization_pass ((k, v) # rest) =
     (case v of
        None \<Rightarrow> Inl TypeError
      | Some r \<Rightarrow>
          (case normalize_record r of
             Inl e \<Rightarrow> Inl e
           | Inr r' \<Rightarrow>
               (case normalization_pass rest of
                  Inl e \<Rightarrow> Inl e
                | Inr rest' \<Rightarrow> Inr ((k, Some r') # rest'))))"

text \<open>\<^verbatim>\<open>type(r['cnt']) == int\<close>, for a record and for every record of a store.\<close>

definition cnt_is_int :: "article \<Rightarrow> bool" where
  "cnt_is_int r = (case cnt r of CntInt n \<Rightarrow> is_py_int n | CntStr s \<Rightarrow> False)"

definition counts_are_int :: "store \<Rightarrow> bool" where
  "counts_are_int d = list_all (\<lambda>kv. case snd kv of None \<Rightarrow> True | Some r \<Rightarrow> cnt_is_int r) d"

text \<open>A document is parsed, stored under its identifier, and the pass is run.\<close>

definition parse_then_normalize :: "soup \<Rightarrow> string \<Rightarrow> py_error + store" where
  "parse_then_normalize parsed doc_id =
     (case parse_doc (Some parsed) doc_id of
        Inl e \<Rightarrow> Inl e
      | Inr a \<Rightarrow> normalization_pass [(doc_id, a)])"

text \<open>The document page of the scenario: thirteen lines, the first three in the header.\<close>

definition scenario_page :: soup where
  "scenario_page =
     \<lparr>center_text = Some (join [nl] [''doc title'', ''jane doe'', ''2020-01-01'']),
      body_text = join [nl] [''doc title'', ''jane doe'', ''2020-01-01'', ''published in:'',
        ''journal of syntax'', ''keywords:'', ''syntax, semantics'', ''downloaded:'', ''42 times'',
        ''doc title'', ''some excerpt text'', ''format:'', ''pdf'']\<rparr>"

section \<open>The listing parser\<close>

text \<open>
  An anchor element as the scan of \<^verbatim>\<open>bs.find_all('a')\<close> reads it: \<open>href\<close> is
  \<^verbatim>\<open>item.get("href")\<close> (\<open>None\<close> when the attribute is missing) and \<open>anchor_text\<close> is
  \<^verbatim>\<open>item.get_text(strip = True)\<close>.
\<close>

record anchor =
  href :: "string option"
  anchor_text :: string

text \<open>
  \<^verbatim>\<open>re.search(r'\d{6}$', s)\<close>: the pattern matches at the start of \<open>s\<close> when six
  digits are followed by the end of the string, or by one newline and the end.
\<close>

definition id_here :: "string \<Rightarrow> bool" where
  "id_here s = (6 \<le> length s \<and> list_all is_digit (take 6 s) \<and> (drop 6 s = [] \<or> drop 6 s = [nl]))"

fun re_search_id :: "string \<Rightarrow> string option" where
  "re_search_id [] = None"
| "re_search_id (c # cs) = (if id_here (c # cs) then Some (take 6 (c # cs)) else re_search_id cs)"

text \<open>\<^verbatim>\<open>re.search(r'Next \d+ articles', s)\<close>, as a truth value.\<close>

definition next_here :: "string \<Rightarrow> bool" where
  "next_here s =
     (take 5 s = ''Next '' \<and> takeWhile is_digit (drop 5 s) \<noteq> [] \<and>
      take 9 (dropWhile is_digit (drop 5 s)) = '' articles'')"

fun re_search_next :: "string \<Rightarrow> bool" where
  "re_search_next [] = False"
| "re_search_next (c # cs) = (next_here (c # cs) \<or> re_search_next cs)"

text \<open>The loop over the anchors; the state is \<^verbatim>\<open>(id_list, next_page)\<close>.\<close>

fun scan_anchors :: "anchor list \<Rightarrow> string list \<times> string \<Rightarrow> py_error + string list \<times> string" where
  "scan_anchors [] st = Inr st"
| "scan_anchors (a # as) (id_list, next_page) =
     (case href a of
        None \<Rightarrow> Inl TypeError
      | Some h \<Rightarrow>
          (case re_search_id h of
             Some g \<Rightarrow> scan_anchors as (id_list @ [g], next_page)
           | None \<Rightarrow>
               if re_search_next (anchor_text a) then scan_anchors as (id_list, h)
               else scan_anchors as (id_list, next_page)))"

text \<open>
  A fetched page, as BeautifulSoup presents it to the two parsers: its anchors, and the
  texts \<^verbatim>\<open>parse_doc\<close> reads. The site is a function from URLs to pages;
  \<^verbatim>\<open>urlopen\<close> raises where it gives \<open>Inl\<close>. A truncated read is the page that was
  read.
\<close>

record html =
  anchors :: "anchor list"
  soup_of :: "soup option"

type_synonym web = "string \<Rightarrow> py_error + html"

definition url_base :: string where
  "url_base = ''http://lingbuzz.auf.net''"

definition fetchDocIdAndNextPage :: "web \<Rightarrow> string \<Rightarrow> py_error + string list \<times> string" where
  "fetchDocIdAndNextPage w url =
     (case w url of Inl e \<Rightarrow> Inl e | Inr page \<Rightarrow> scan_anchors (anchors page) ([], []))"

definition fetch_doc :: "web \<Rightarrow> string \<Rightarrow> py_error + html" where
  "fetch_doc w doc_id = w (url_base @ ''/lingbuzz/'' @ doc_id)"

section \<open>The crawl driver\<close>

text \<open>\<^verbatim>\<open>k in d.keys()\<close> and \<^verbatim>\<open>d[k] = v\<close> on the association list.\<close>

definition has_key :: "'k \<Rightarrow> ('k \<times> 'v) list \<Rightarrow> bool" where
  "has_key k d = (k \<in> set (map fst d))"

fun dict_set :: "'k \<Rightarrow> 'v \<Rightarrow> ('k \<times> 'v) list \<Rightarrow> ('k \<times> 'v) list" where
  "dict_set k v [] = [(k, v)]"
| "dict_set k v ((k', v') # d) = (if k' = k then (k, v) # d else (k', v') # dict_set k v d)"

text \<open>
  The variables of the driver cell. \<open>fetched\<close> is not a variable of the notebook: it
  logs the identifiers passed to \<^verbatim>\<open>fetch_doc\<close>, in order.
\<close>

record crawl_state =
  next_page :: string
  list_url :: "string list"
  ref_dict :: store
  fetched :: "string list"

text \<open>
  The inner loop over \<^verbatim>\<open>id_list\<close>. An exception leaves the loop with the variables as
  they are at that moment: the result is the exception, if any, and the state.
\<close>

fun process_ids :: "web \<Rightarrow> string list \<Rightarrow> crawl_state \<Rightarrow> py_error option \<times> crawl_state" where
  "process_ids w [] st = (None, st)"
| "process_ids w (i # ids) st =
     (if has_key i (ref_dict st) then process_ids w ids st
      else
        (let st1 = st\<lparr>fetched := fetched st @ [i]\<rparr> in
         case fetch_doc w i of
           Inl e \<Rightarrow> (Some e, st1)
         | Inr doc \<Rightarrow>
             (case parse_doc (soup_of doc) i of
                Inl e \<Rightarrow> (Some e, st1)
              | Inr a \<Rightarrow> process_ids w ids (st1\<lparr>ref_dict := dict_set i a (ref_dict st1)\<rparr>))))"

text \<open>
  The loop \<^verbatim>\<open>while True\<close>, with fuel: \<open>None\<close> when the fuel runs out before the loop
  ends.
\<close>

fun crawl_loop :: "nat \<Rightarrow> web \<Rightarrow> crawl_state \<Rightarrow> (py_error option \<times> crawl_state) option" where
  "crawl_loop 0 w st = None"
| "crawl_loop (Suc n) w st =
     (case fetchDocIdAndNextPage w (next_page st) of
        Inl e \<Rightarrow> Some (Some e, st)
      | Inr (id_list, next_url) \<Rightarrow>
          if next_url = [] then Some (None, st)
          else
            (case process_ids w id_list
                    (st\<lparr>next_page := url_base @ next_url, list_url := list_url st @ [next_url]\<rparr>) of
               (Some e, st') \<Rightarrow> Some (Some e, st')
             | (None, st') \<Rightarrow> crawl_loop n w st'))"

definition initial_state :: "store \<Rightarrow> crawl_state" where
  "initial_state d = \<lparr>next_page = url_base @ ''/lingbuzz'', list_url = [], ref_dict = d, fetched = []\<rparr>"

text \<open>
  A run of the notebook on a loaded store: the driver cell, then the normalization pass;
  the result is the store that is saved.
\<close>

definition run :: "nat \<Rightarrow> web \<Rightarrow> store \<Rightarrow> (py_error + store) option" where
  "run fuel w d =
     (case crawl_loop fuel w (initial_state d) of
        None \<Rightarrow> None
      | Some (Some e, st) \<Rightarrow> Some (Inl e)
      | Some (None, st) \<Rightarrow> Some (normalization_pass (ref_dict st)))"

section \<open>The listing parser in closed form\<close>

text \<open>
  The functions of this section are not in the notebook. They say in one expression what
  the scan over the anchors computes, and are proved equal to it below.

  \<open>six_digit_tail h\<close>: the last six characters of \<open>h\<close> when they are digits, one
  final newline of \<open>h\<close> left aside.
\<close>

definition six_digit_tail :: "string \<Rightarrow> string option" where
  "six_digit_tail h =
     (let s = (if h \<noteq> [] \<and> last h = nl then butlast h else h)
      in if 6 \<le> length s \<and> list_all is_digit (drop (length s - 6) s)
         then Some (drop (length s - 6) s) else None)"

definition id_of :: "anchor \<Rightarrow> string option" where
  "id_of a = (case href a of None \<Rightarrow> None | Some h \<Rightarrow> six_digit_tail h)"

text \<open>An anchor that sets the next page: no identifier, and a text that matches.\<close>

definition is_next_link :: "anchor \<Rightarrow> bool" where
  "is_next_link a = (id_of a = None \<and> re_search_next (anchor_text a))"

definition listing_ids :: "anchor list \<Rightarrow> string list" where
  "listing_ids as = List.map_filter id_of as"

text \<open>The link target of the last such anchor, or the empty string.\<close>

definition listing_next :: "anchor list \<Rightarrow> string" where
  "listing_next as =
     (let ns = filter is_next_link as
      in if ns = [] then [] else (case href (last ns) of None \<Rightarrow> [] | Some h \<Rightarrow> h))"

text \<open>
  The identifier of a link target as the specification words it: the trailing path
  segment, when it is exactly six digits.
\<close>

definition trailing_segment :: "string \<Rightarrow> string" where
  "trailing_segment h = rev (takeWhile (\<lambda>c. c \<noteq> CHR ''/'') (rev h))"

definition spec_doc_id :: "string \<Rightarrow> string option" where
  "spec_doc_id h =
     (let seg = trailing_segment h
      in if length seg = 6 \<and> list_all is_digit seg then Some seg else None)"

section \<open>The persisted snapshot\<close>

text \<open>
  Modelled from the spec: the notebook writes and reads the corpus file with
  \<^verbatim>\<open>json.dump\<close> and \<^verbatim>\<open>json.load\<close>, whose code is not part of the repository. The
  snapshot is the structured value these exchange, without its layout as text: null, an
  integer, a string, an array, or an object of named values.
\<close>

datatype json = JNull | JInt int | JStr string | JArr "json list" | JObj "(string \<times> json) list"

text \<open>
  Modelled from the spec: a record is written as an object with the fields \<^verbatim>\<open>cnt\<close>
  (integer), \<^verbatim>\<open>kwd\<close> (array of strings), \<^verbatim>\<open>tit\<close>, \<^verbatim>\<open>pub\<close>, \<^verbatim>\<open>dat\<close> (strings),
  \<^verbatim>\<open>aut\<close> (array of strings), \<^verbatim>\<open>ref\<close> and \<^verbatim>\<open>exc\<close> (strings). A count or a keyword
  field that still holds raw text is written as a string.
\<close>

definition record_snapshot :: "article \<Rightarrow> json" where
  "record_snapshot r =
     JObj [(''cnt'', case cnt r of CntInt n \<Rightarrow> JInt n | CntStr s \<Rightarrow> JStr s),
           (''kwd'', case kwd r of KwdList ks \<Rightarrow> JArr (map JStr ks) | KwdStr s \<Rightarrow> JStr s),
           (''tit'', JStr (tit r)),
           (''pub'', JStr (pub r)),
           (''dat'', JStr (dat r)),
           (''aut'', JArr (map JStr (aut r))),
           (''ref'', JStr (ref r)),
           (''exc'', JStr (exc r))]"

text \<open>
  Modelled from the spec: the snapshot of a store maps each identifier to the object of
  its record (null for an entry that is \<^verbatim>\<open>None\<close>).
\<close>

definition snapshot :: "store \<Rightarrow> json" where
  "snapshot M =
     JObj (map (\<lambda>kv. (fst kv, case snd kv of None \<Rightarrow> JNull | Some r \<Rightarrow> record_snapshot r)) M)"

text \<open>
  Modelled from the spec: the corpus file is \<open>None\<close> when the path does not exist.
  \<open>save\<close> writes the full mapping as a single snapshot, overwriting any prior one.
\<close>

definition save :: "store \<Rightarrow> json option \<Rightarrow> json option" where
  "save M file = Some (snapshot M)"

text \<open>Modelled from the spec: reading an array of strings.\<close>

fun read_strings :: "json list \<Rightarrow> string list option" where
  "read_strings [] = Some []"
| "read_strings (JStr s # js) = map_option (\<lambda>ss. s # ss) (read_strings js)"
| "read_strings (j # js) = None"

text \<open>
  Modelled from the spec: the value of a named field of an object; of two fields of the
  same name the later one counts.
\<close>

definition field :: "(string \<times> json) list \<Rightarrow> string \<Rightarrow> json option" where
  "field fs name = map_of (rev fs) name"

definition read_str :: "json \<Rightarrow> string option" where
  "read_str j = (case j of JStr s \<Rightarrow> Some s | _ \<Rightarrow> None)"

definition read_str_list :: "json \<Rightarrow> string list option" where
  "read_str_list j = (case j of JArr js \<Rightarrow> read_strings js | _ \<Rightarrow> None)"

definition read_cnt :: "json \<Rightarrow> cnt_val option" where
  "read_cnt j = (case j of JInt n \<Rightarrow> Some (CntInt n) | JStr s \<Rightarrow> Some (CntStr s) | _ \<Rightarrow> None)"

definition read_kwd :: "json \<Rightarrow> kwd_val option" where
  "read_kwd j =
     (case j of
        JArr js \<Rightarrow> map_option KwdList (read_strings js)
      | JStr s \<Rightarrow> Some (KwdStr s)
      | _ \<Rightarrow> None)"

text \<open>
  Modelled from the spec: reading a record back from its object; \<open>None\<close> when the value
  is not an object with the eight fields of a record.
\<close>

definition read_record :: "json \<Rightarrow> article option" where
  "read_record j =
     (case j of
        JObj fs \<Rightarrow>
          Option.bind (Option.bind (field fs ''cnt'') read_cnt) (\<lambda>cnt_v.
          Option.bind (Option.bind (field fs ''kwd'') read_kwd) (\<lambda>kwd_v.
          Option.bind (Option.bind (field fs ''tit'') read_str) (\<lambda>tit_v.
          Option.bind (Option.bind (field fs ''pub'') read_str) (\<lambda>pub_v.
          Option.bind (Option.bind (field fs ''dat'') read_str) (\<lambda>dat_v.
          Option.bind (Option.bind (field fs ''aut'') read_str_list) (\<lambda>aut_v.
          Option.bind (Option.bind (field fs ''ref'') read_str) (\<lambda>ref_v.
          Option.bind (Option.bind (field fs ''exc'') read_str) (\<lambda>exc_v.
            Some \<lparr>ref = ref_v, tit = tit_v, dat = dat_v, aut = aut_v, pub = pub_v,
                  kwd = kwd_v, cnt = cnt_v, exc = exc_v\<rparr>))))))))
      | _ \<Rightarrow> None)"

definition read_entry :: "json \<Rightarrow> article option option" where
  "read_entry j = (case j of JNull \<Rightarrow> Some None | _ \<Rightarrow> map_option Some (read_record j))"

text \<open>
  Modelled from the spec: the entries of the snapshot are put into the mapping one after
  the other.
\<close>

fun read_entries :: "(string \<times> json) list \<Rightarrow> store \<Rightarrow> store option" where
  "read_entries [] d = Some d"
| "read_entries ((k, j) # ps) d =
     (case read_entry j of None \<Rightarrow> None | Some v \<Rightarrow> read_entries ps (dict_set k v d))"

text \<open>
  Modelled from the spec: \<open>load\<close> gives the empty mapping if the path does not exist
  (this is not an error), and the mapping of the snapshot otherwise; \<open>None\<close> when the
  file does not hold a mapping of records.
\<close>

definition load :: "json option \<Rightarrow> store option" where
  "load file =
     (case file of
        None \<Rightarrow> Some []
      | Some j \<Rightarrow> (case j of JObj ps \<Rightarrow> read_entries ps [] | _ \<Rightarrow> None))"

section \<open>Sample inputs\<close>

text \<open>
  A document page laid out as the site does: the header, the abstract, the line
  \<^verbatim>\<open>Format:\<close>, then the reference, the venue, the keywords and the download count.
\<close>

definition sample_page :: soup where
  "sample_page =
     \<lparr>center_text = Some (join [nl] [''A Paper Title'', ''Jane Doe'', '','', ''John Roe'', ''May 2015'']),
      body_text = join [nl] [''A Paper Title'', ''Jane Doe'', '','', ''John Roe'', ''May 2015'',
        ''This paper argues (briefly) that X.'', ''Format:'', ''[ pdf ]'', ''Reference:'',
        ''lingbuzz/004512'', ''Published in:'', ''Journal of Syntax'', ''keywords:'',
        ''syntax, Semantics'', ''Downloaded:'', ''42 times'']\<rparr>"

definition sample_raw :: article where
  "sample_raw =
     \<lparr>ref = ''004512'', tit = ''a paper title'', dat = ''may 2015'',
      aut = [''jane doe'', ''john roe''], pub = ''journal of syntax'',
      kwd = KwdStr ''syntax, semantics'', cnt = CntStr ''42 times'',
      exc = ''this paper argues (briefly) that x.''\<rparr>"

definition sample_normalized :: article where
  "sample_normalized =
     \<lparr>ref = ''004512'', tit = ''a paper title'', dat = ''may 2015'',
      aut = [''jane doe'', ''john roe''], pub = ''journal of syntax'',
      kwd = KwdList [''syntax'', ''semantics''], cnt = CntInt 42,
      exc = ''this paper argues briefly that x''\<rparr>"



text \<open>A page with a header and no marker lines at all.\<close>

definition bare_page :: soup where
  "bare_page =
     \<lparr>center_text = Some (join [nl] [''A Paper Title'', ''May 2015'']),
      body_text = join [nl] [''A Paper Title'', ''May 2015'', ''Format:'', ''[ pdf ]'']\<rparr>"

text \<open>A page without a header block, and a page whose only missing marker is the download count.\<close>

definition headerless_page :: soup where
  "headerless_page = \<lparr>center_text = None, body_text = body_text sample_page\<rparr>"

definition no_download_page :: soup where
  "no_download_page =
     \<lparr>center_text = Some (join [nl] [''A Paper Title'', ''May 2015'']),
      body_text = join [nl] [''A Paper Title'', ''May 2015'', ''An abstract.'', ''Format:'',
        ''[ pdf ]'', ''keywords:'', ''syntax'']\<rparr>"

text \<open>
  Listing pages: the one of the specification's scenario; one whose only anchor ends in
  seven digits; one whose next-page anchor has a link target that ends in six digits.
\<close>

definition listing_scenario :: html where
  "listing_scenario =
     \<lparr>anchors = [\<lparr>href = Some ''/lingbuzz/004512'', anchor_text = ''A first paper''\<rparr>,
                 \<lparr>href = Some ''/lingbuzz/004513'', anchor_text = ''A second paper''\<rparr>,
                 \<lparr>href = Some ''/lingbuzz?start=50'', anchor_text = ''Next 50 articles''\<rparr>],
      soup_of = Some \<lparr>center_text = None, body_text = []\<rparr>\<rparr>"

definition long_run_listing :: html where
  "long_run_listing =
     \<lparr>anchors = [\<lparr>href = Some ''/lingbuzz/0045123'', anchor_text = ''A paper''\<rparr>],
      soup_of = Some \<lparr>center_text = None, body_text = []\<rparr>\<rparr>"

definition shadowed_next_listing :: html where
  "shadowed_next_listing =
     \<lparr>anchors = [\<lparr>href = Some ''/lingbuzz/004512'', anchor_text = ''A first paper''\<rparr>,
                 \<lparr>href = Some ''/lingbuzz?start=100000'', anchor_text = ''Next 100 articles''\<rparr>],
      soup_of = Some \<lparr>center_text = None, body_text = []\<rparr>\<rparr>"


text \<open>
  A site of two listing pages. The first links to the documents 004512 and 004510 and to
  the second page; the second, the final one, links to the document 004513. Each document
  page is the sample page.
\<close>

definition two_page_site :: web where
  "two_page_site url =
     (if url = ''http://lingbuzz.auf.net/lingbuzz'' then
        Inr \<lparr>anchors = [\<lparr>href = Some ''/lingbuzz/004512'', anchor_text = ''A Paper Title''\<rparr>,
                         \<lparr>href = Some ''/lingbuzz/004510'', anchor_text = ''An Older Paper''\<rparr>,
                         \<lparr>href = Some ''/lingbuzz?start=31'', anchor_text = ''Next 30 articles''\<rparr>],
             soup_of = Some \<lparr>center_text = None, body_text = []\<rparr>\<rparr>
      else if url = ''http://lingbuzz.auf.net/lingbuzz?start=31'' then
        Inr \<lparr>anchors = [\<lparr>href = Some ''/lingbuzz/004513'', anchor_text = ''Another Paper''\<rparr>],
             soup_of = Some \<lparr>center_text = None, body_text = []\<rparr>\<rparr>
      else if url \<in> set [''http://lingbuzz.auf.net/lingbuzz/004510'',
                          ''http://lingbuzz.auf.net/lingbuzz/004512'',
                          ''http://lingbuzz.auf.net/lingbuzz/004513''] then
        Inr \<lparr>anchors = [], soup_of = Some sample_page\<rparr>
      else Inl URLError)"

definition older_record :: article where
  "older_record = sample_normalized\<lparr>ref := ''004510'', tit := ''an older paper''\<rparr>"

definition older_store :: store where
  "older_store = [(''004510'', Some older_record)]"

section \<open>The growth of the store\<close>

text \<open>
  Between two states of the driver: \<open>new\<close> are the identifiers fetched, \<open>added\<close> the
  entries appended to the store. No fetched identifier was in the store, none is fetched
  twice, and the entries appended are those of the first identifiers fetched.
\<close>

definition grows_by :: "crawl_state \<Rightarrow> crawl_state \<Rightarrow> string list \<Rightarrow> store \<Rightarrow> bool" where
  "grows_by st st' new added \<longleftrightarrow>
     fetched st' = fetched st @ new \<and> ref_dict st' = ref_dict st @ added \<and>
     list_all (\<lambda>k. \<not> has_key k (ref_dict st)) new \<and> distinct new \<and>
     map fst added = take (length added) new"

section \<open>Strings and lists\<close>

lemma upper_bounds: "is_upper c \<Longrightarrow> 65 \<le> (of_char c :: nat) \<and> (of_char c :: nat) \<le> 222"
  by (auto simp: is_upper_def)

lemma lower_char_upper:
  assumes "is_upper c"
  shows "(of_char (lower_char c) :: nat) = of_char c + 32"
proof -
  from upper_bounds[OF assms] have "(of_char c :: nat) + 32 < 256" by simp
  then have "((of_char c :: nat) + 32) mod 256 = of_char c + 32" by simp
  with assms show ?thesis by (simp add: lower_char_def)
qed

lemma lower_char_other: "\<not> is_upper c \<Longrightarrow> lower_char c = c"
  by (simp add: lower_char_def)

lemma lower_char_not_upper: "\<not> is_upper (lower_char c)"
proof (cases "is_upper c")
  case True
  from lower_char_upper[OF True] True show ?thesis
    unfolding is_upper_def by arith
next
  case False
  then show ?thesis by (simp add: lower_char_other)
qed

lemma lower_char_idem: "lower_char (lower_char c) = lower_char c"
  by (rule lower_char_other) (rule lower_char_not_upper)

lemma lower_idem: "lower (lower s) = lower s"
  by (simp add: lower_def lower_char_idem)

lemma punct_code: "c \<in> set '';:.,()'' \<Longrightarrow> (of_char c :: nat) < 65"
  by auto

lemma lower_char_punct: "c \<notin> set '';:.,()'' \<Longrightarrow> lower_char c \<notin> set '';:.,()''"
proof (cases "is_upper c")
  case True
  have "\<not> (of_char (lower_char c) :: nat) < 65"
    using lower_char_upper[OF True] upper_bounds[OF True] by simp
  then show ?thesis using punct_code[of "lower_char c"] by auto
next
  case False
  assume "c \<notin> set '';:.,()''"
  with False show ?thesis by (simp add: lower_char_other)
qed

lemma re_sub_punct_lower: "re_sub_punct (lower (re_sub_punct s)) = lower (re_sub_punct s)"
  unfolding re_sub_punct_def lower_def
  by (induction s) (use lower_char_punct in auto)

lemma index_of_Inr:
  "index_of xs x = Inr i \<Longrightarrow> i < length xs \<and> xs ! i = x \<and> (\<forall>k<i. xs ! k \<noteq> x)"
proof (induction xs arbitrary: i)
  case Nil
  then show ?case by simp
next
  case (Cons y ys)
  show ?case
  proof (cases "y = x")
    case True
    with Cons.prems show ?thesis by simp
  next
    case False
    with Cons.prems obtain n where n: "index_of ys x = Inr n" "i = Suc n"
      by (auto split: sum.splits)
    from Cons.IH[OF n(1)] False n(2) show ?thesis
      by (auto simp: nth_Cons split: nat.splits)
  qed
qed

lemma index_of_absent: "x \<notin> set xs \<Longrightarrow> index_of xs x = Inl ValueError"
  by (induction xs) auto

lemma after_marker_absent: "m \<notin> set xs \<Longrightarrow> after_marker xs m = Inl ValueError"
  by (simp add: after_marker_def index_of_absent)

lemma slice_between:
  assumes "j \<le> length xs"
  shows "slice xs (int i + 1) (int j) = map (\<lambda>k. xs ! k) [Suc i..<j]"
proof -
  have "take (j - Suc i) (drop (Suc i) xs) = map (\<lambda>k. xs ! k) [Suc i..<j]"
    using assms by (auto simp: list_eq_iff_nth_eq)
  moreover have "clamp_index (length xs) (int i + 1) = min (length xs) (Suc i)"
    by (auto simp: clamp_index_def)
  moreover have "clamp_index (length xs) (int j) = j"
    using assms by (auto simp: clamp_index_def)
  ultimately show ?thesis
    using assms by (cases "Suc i \<le> length xs") (auto simp: slice_def Let_def min_def)
qed

section \<open>The document parser: properties\<close>

lemma parse_doc_Some_inv:
  assumes "parse_doc html_doc doc_id = Inr (Some a)"
  shows "\<exists>parsed m n. html_doc = Some parsed \<and>
     index_of (body_lines parsed) (dat a) = Inr m \<and>
     index_of (body_lines parsed) ''format:'' = Inr n \<and>
     exc a = join '' '' (slice (body_lines parsed) (int m + 1) (int n))"
  using assms
  by (auto simp: parse_doc_def Let_def split: option.splits sum.splits)

lemma sample_page_parsed: "parse_doc (Some sample_page) ''004512'' = Inr (Some sample_raw)"
  by code_simp

text \<open>
  Claim C1, as amended. On the page of the scenario, parsing and then normalizing gives
  the title, authors, date, venue, keywords and count of the scenario. The excerpt is
  every line between the date line and the line \<^verbatim>\<open>format:\<close>, so on this page it
  holds the venue, keyword and download lines as well, with the punctuation removed.
\<close>

theorem scenario_record:
  "parse_then_normalize scenario_page doc_id =
     Inr [(doc_id,
           Some \<lparr>ref = doc_id, tit = ''doc title'', dat = ''2020-01-01'',
                 aut = [''jane doe''], pub = ''journal of syntax'',
                 kwd = KwdList [''syntax'', ''semantics''], cnt = CntInt 42,
                 exc = ''published in journal of syntax keywords syntax semantics downloaded 42 times doc title some excerpt text''\<rparr>)]"
  by code_simp

text \<open>
  Claim C1, as stated, fails: the record with the excerpt \<^verbatim>\<open>some excerpt text\<close> is
  not the one the code builds for the page of the scenario.
\<close>

theorem scenario_excerpt_differs:
  "parse_then_normalize scenario_page ''004512'' \<noteq>
     Inr [(''004512'',
           Some \<lparr>ref = ''004512'', tit = ''doc title'', dat = ''2020-01-01'',
                 aut = [''jane doe''], pub = ''journal of syntax'',
                 kwd = KwdList [''syntax'', ''semantics''], cnt = CntInt 42,
                 exc = ''some excerpt text''\<rparr>)]"
  by code_simp

text \<open>
  Claim C4. When \<^verbatim>\<open>parse_doc\<close> returns a record, its excerpt is the lines of the
  body text strictly between position \<open>m\<close>, the first line equal to the date, and
  position \<open>n\<close>, the first line equal to \<^verbatim>\<open>format:\<close>, joined with single spaces.
\<close>

theorem exc_between_date_and_format:
  assumes "parse_doc html_doc doc_id = Inr (Some a)"
  shows "\<exists>parsed m n. html_doc = Some parsed \<and>
           m < length (body_lines parsed) \<and> body_lines parsed ! m = dat a \<and>
           (\<forall>k<m. body_lines parsed ! k \<noteq> dat a) \<and>
           n < length (body_lines parsed) \<and> body_lines parsed ! n = ''format:'' \<and>
           (\<forall>k<n. body_lines parsed ! k \<noteq> ''format:'') \<and>
           exc a = join '' '' (map (\<lambda>k. body_lines parsed ! k) [Suc m..<n])"
proof -
  from parse_doc_Some_inv[OF assms] obtain parsed m n where
    p: "html_doc = Some parsed" and
    m: "index_of (body_lines parsed) (dat a) = Inr m" and
    n: "index_of (body_lines parsed) ''format:'' = Inr n" and
    e: "exc a = join '' '' (slice (body_lines parsed) (int m + 1) (int n))"
    by blast
  from index_of_Inr[OF n] have "n \<le> length (body_lines parsed)" by simp
  from slice_between[OF this, of m] e
  have "exc a = join '' '' (map (\<lambda>k. body_lines parsed ! k) [Suc m..<n])" by simp
  with p index_of_Inr[OF m] index_of_Inr[OF n] show ?thesis by blast
qed

theorem exc_between_date_and_format_witness:
  "parse_doc (Some sample_page) ''004512'' = Inr (Some sample_raw) \<and>
   (\<exists>parsed m n. Some sample_page = Some parsed \<and>
           m < length (body_lines parsed) \<and> body_lines parsed ! m = dat sample_raw \<and>
           (\<forall>k<m. body_lines parsed ! k \<noteq> dat sample_raw) \<and>
           n < length (body_lines parsed) \<and> body_lines parsed ! n = ''format:'' \<and>
           (\<forall>k<n. body_lines parsed ! k \<noteq> ''format:'') \<and>
           exc sample_raw = join '' '' (map (\<lambda>k. body_lines parsed ! k) [Suc m..<n]))"
  using exc_between_date_and_format[OF sample_page_parsed] sample_page_parsed by blast

text \<open>
  Claim C5. For a page that was parsed, \<^verbatim>\<open>parse_doc\<close> raises, and returns neither a
  record nor \<^verbatim>\<open>None\<close>, when the header block is missing, or the body text has no line
  \<^verbatim>\<open>keywords:\<close>, or no line \<^verbatim>\<open>downloaded:\<close>.
\<close>

theorem missing_marker_raises:
  assumes "center_text parsed = None \<or> ''keywords:'' \<notin> set (body_lines parsed)
           \<or> ''downloaded:'' \<notin> set (body_lines parsed)"
  shows "\<exists>e. parse_doc (Some parsed) doc_id = Inl e"
  using assms
  by (auto simp: parse_doc_def Let_def after_marker_absent split: option.splits sum.splits)

lemma bare_page_no_keywords: "''keywords:'' \<notin> set (body_lines bare_page)"
  by code_simp

lemma no_download_page_markers:
  "''keywords:'' \<in> set (body_lines no_download_page) \<and>
   ''downloaded:'' \<notin> set (body_lines no_download_page)"
  by code_simp

theorem missing_marker_raises_witness:
  "''keywords:'' \<notin> set (body_lines bare_page) \<and>
   (\<exists>e. parse_doc (Some bare_page) ''004512'' = Inl e) \<and>
   center_text headerless_page = None \<and>
   (\<exists>e. parse_doc (Some headerless_page) ''004512'' = Inl e) \<and>
   ''keywords:'' \<in> set (body_lines no_download_page) \<and>
   ''downloaded:'' \<notin> set (body_lines no_download_page) \<and>
   (\<exists>e. parse_doc (Some no_download_page) ''004512'' = Inl e)"
proof -
  have h: "center_text headerless_page = None" by (simp add: headerless_page_def)
  from missing_marker_raises[of bare_page "''004512''"]
       missing_marker_raises[of headerless_page "''004512''"]
       missing_marker_raises[of no_download_page "''004512''"]
       bare_page_no_keywords no_download_page_markers h
  show ?thesis by blast
qed

section \<open>The normalization pass: properties\<close>

lemma normalize_record_again:
  assumes "normalize_record r = Inr r'"
  shows "normalize_record r' = (if cnt_is_int r' then Inr r' else Inl TypeError)"
proof -
  from assms obtain m where m: "cnt r' = CntInt m"
    by (auto simp: normalize_record_def split: cnt_val.splits option.splits if_splits)
  from assms have e: "lower (re_sub_punct (exc r')) = exc r'"
    by (auto simp: normalize_record_def re_sub_punct_lower lower_idem
             split: cnt_val.splits option.splits if_splits)
  from assms obtain ks where k: "kwd r' = KwdList ks" "map lower ks = ks"
    by (auto simp: normalize_record_def lower_idem
             split: cnt_val.splits option.splits if_splits kwd_val.splits)
  from m e k show ?thesis
    by (simp add: normalize_record_def cnt_is_int_def)
qed

lemma normalize_record_idem:
  assumes "normalize_record r = Inr r'" and "cnt_is_int r'"
  shows "normalize_record r' = Inr r'"
  using normalize_record_again[OF assms(1)] assms(2) by simp

lemma normalization_pass_idem:
  "normalization_pass d = Inr d' \<Longrightarrow> counts_are_int d' \<Longrightarrow> normalization_pass d' = Inr d'"
proof (induction d arbitrary: d')
  case Nil
  then show ?case by simp
next
  case (Cons kv d)
  obtain k v where kv: "kv = (k, v)" by (cases kv)
  from Cons.prems(1) kv obtain r r' rest' where
    v: "v = Some r" and r: "normalize_record r = Inr r'" and
    rest: "normalization_pass d = Inr rest'" and d': "d' = (k, Some r') # rest'"
    by (auto split: option.splits sum.splits)
  from Cons.prems(2) d' have c: "cnt_is_int r'" "counts_are_int rest'"
    by (simp_all add: counts_are_int_def)
  from normalize_record_idem[OF r c(1)] Cons.IH[OF rest c(2)] d' show ?case by simp
qed






text \<open>The value of a digit run is its decimal reading.\<close>

lemma py_int_snoc: "py_int (ds @ [d]) = 10 * py_int ds + digit_val d"
  by (simp add: py_int_def)

lemma digit_val_range: "is_digit c \<Longrightarrow> 0 \<le> digit_val c \<and> digit_val c \<le> 9"
  by (auto simp: is_digit_def digit_val_def)

lemma py_int_nonneg: "list_all is_digit ds \<Longrightarrow> 0 \<le> py_int ds"
proof (induction ds rule: rev_induct)
  case Nil
  then show ?case by (simp add: py_int_def)
next
  case (snoc d ds)
  then have "0 \<le> py_int ds" "is_digit d" by simp_all
  with digit_val_range[of d] show ?case by (simp add: py_int_snoc)
qed






section \<open>The listing parser: properties\<close>

lemma nl_not_digit: "\<not> is_digit nl"
  by (simp add: is_digit_def nl_def)

lemma not_id_here_long: "7 < length s \<Longrightarrow> \<not> id_here s"
proof
  assume l: "7 < length s" and "id_here s"
  then have "drop 6 s = [] \<or> drop 6 s = [nl]" by (simp add: id_here_def)
  then show False
  proof
    assume "drop 6 s = []"
    with l show False by simp
  next
    assume e: "drop 6 s = [nl]"
    have "length (drop 6 s) = length [nl]" by (simp only: e)
    with l show False by simp
  qed
qed

lemma not_id_here_digit_end: "length s = 7 \<Longrightarrow> is_digit (last s) \<Longrightarrow> \<not> id_here s"
proof
  assume l: "length s = 7" and d: "is_digit (last s)" and "id_here s"
  then have "drop 6 s = [] \<or> drop 6 s = [nl]" by (simp add: id_here_def)
  with l have e: "drop 6 s = [nl]" by auto
  from l have "s \<noteq> []" by auto
  have "last s = last (drop 6 s)" using l by (simp add: last_drop)
  with e d nl_not_digit show False by simp
qed

lemma re_search_id_Some:
  "re_search_id h = Some g \<Longrightarrow>
     length g = 6 \<and> list_all is_digit g \<and> (\<exists>p. h = p @ g \<or> h = p @ g @ [nl])"
proof (induction h)
  case Nil
  then show ?case by simp
next
  case (Cons c cs)
  show ?case
  proof (cases "id_here (c # cs)")
    case True
    with Cons.prems have g: "g = take 6 (c # cs)" by simp
    from True have "6 \<le> length (c # cs)" "list_all is_digit (take 6 (c # cs))"
      and d: "drop 6 (c # cs) = [] \<or> drop 6 (c # cs) = [nl]"
      by (simp_all add: id_here_def)
    moreover have "c # cs = take 6 (c # cs) @ drop 6 (c # cs)" by simp
    with d have "c # cs = [] @ take 6 (c # cs) \<or> c # cs = [] @ take 6 (c # cs) @ [nl]"
      by (metis append_Nil append_Nil2)
    ultimately show ?thesis unfolding g by (metis length_take min.absorb2)
  next
    case False
    with Cons.prems have "re_search_id cs = Some g" by simp
    from Cons.IH[OF this] obtain p where
      "length g = 6" "list_all is_digit g" "cs = p @ g \<or> cs = p @ g @ [nl]" by blast
    then have "c # cs = (c # p) @ g \<or> c # cs = (c # p) @ g @ [nl]" by simp
    with \<open>length g = 6\<close> \<open>list_all is_digit g\<close> show ?thesis by blast
  qed
qed

lemma id_here_exact: "length g = 6 \<Longrightarrow> list_all is_digit g \<Longrightarrow> id_here g \<and> id_here (g @ [nl])"
  by (simp add: id_here_def)

lemma re_search_id_suffix:
  assumes "length g = 6" "list_all is_digit g"
  shows "re_search_id (p @ g) = Some g \<and> re_search_id (p @ g @ [nl]) = Some g"
proof (induction p)
  case Nil
  from assms(1) obtain c cs where g: "g = c # cs" by (cases g) auto
  from id_here_exact[OF assms] have "id_here (c # cs)" "id_here (c # cs @ [nl])"
    by (simp_all add: g)
  then have "re_search_id (c # cs) = Some (take 6 (c # cs))"
    "re_search_id (c # cs @ [nl]) = Some (take 6 (c # cs @ [nl]))" by simp_all
  with assms(1) show ?case by (simp add: g)
next
  case (Cons c p)
  from assms have dl: "is_digit (last g)"
    by (cases g rule: rev_cases) (auto simp: list_all_iff)
  from assms(1) have gne: "g \<noteq> []" by auto
  have "\<not> id_here (c # p @ g)"
  proof (cases p)
    case Nil
    with assms(1) gne dl show ?thesis by (intro not_id_here_digit_end) simp_all
  next
    case (Cons b q)
    with assms(1) show ?thesis by (intro not_id_here_long) simp
  qed
  moreover have "\<not> id_here (c # p @ g @ [nl])"
    using assms(1) by (intro not_id_here_long) simp
  ultimately show ?case using Cons.IH by simp
qed

lemma six_digit_tail_suffix:
  assumes "length g = 6" "list_all is_digit g"
  shows "six_digit_tail (p @ g) = Some g \<and> six_digit_tail (p @ g @ [nl]) = Some g"
proof -
  from assms have "is_digit (last g)" and gne: "g \<noteq> []"
    by (cases g rule: rev_cases; auto simp: list_all_iff)+
  with nl_not_digit have "last g \<noteq> nl" by auto
  with gne have 1: "last (p @ g) \<noteq> nl" by simp
  have 2: "butlast (p @ g @ [nl]) = p @ g" by (simp add: butlast_append)
  from 1 assms have "six_digit_tail (p @ g) = Some g"
    by (simp add: six_digit_tail_def Let_def)
  moreover from 2 assms have "six_digit_tail (p @ g @ [nl]) = Some g"
    by (simp add: six_digit_tail_def Let_def)
  ultimately show ?thesis by simp
qed

lemma six_digit_tail_Some:
  assumes "six_digit_tail h = Some g"
  shows "length g = 6 \<and> list_all is_digit g \<and> (\<exists>p. h = p @ g \<or> h = p @ g @ [nl])"
proof -
  define s where "s = (if h \<noteq> [] \<and> last h = nl then butlast h else h)"
  from assms have l: "6 \<le> length s" and d: "list_all is_digit g" and g: "g = drop (length s - 6) s"
    by (auto simp: six_digit_tail_def Let_def s_def split: if_splits)
  have "s = take (length s - 6) s @ g" by (simp add: g)
  moreover have "h = s \<or> h = s @ [nl]"
    by (auto simp: s_def) (metis append_butlast_last_id)
  ultimately have "h = take (length s - 6) s @ g \<or> h = take (length s - 6) s @ g @ [nl]"
    by (metis append_assoc)
  moreover from l g have "length g = 6" by simp
  ultimately show ?thesis using d by blast
qed

lemma re_search_id_tail: "re_search_id h = six_digit_tail h"
proof (cases "re_search_id h")
  case (Some g)
  from re_search_id_Some[OF Some] six_digit_tail_suffix[of g] Some show ?thesis by metis
next
  case None
  show ?thesis
  proof (cases "six_digit_tail h")
    case None
    with \<open>re_search_id h = None\<close> show ?thesis by simp
  next
    case (Some g)
    from six_digit_tail_Some[OF Some] re_search_id_suffix[of g] None show ?thesis by (metis option.distinct(1))
  qed
qed

lemma scan_anchors_closed_form:
  assumes "\<forall>a\<in>set as. href a \<noteq> None"
  shows "scan_anchors as (ids, nxt) =
           Inr (ids @ listing_ids as, if filter is_next_link as = [] then nxt else listing_next as)"
  using assms
proof (induction as arbitrary: ids nxt)
  case Nil
  then show ?case by (simp add: listing_ids_def List.map_filter_simps)
next
  case (Cons a as)
  from Cons.prems obtain h where h: "href a = Some h" by auto
  from Cons.prems have rest: "\<forall>a\<in>set as. href a \<noteq> None" by simp
  show ?case
  proof (cases "six_digit_tail h")
    case (Some g)
    with h have "id_of a = Some g" "\<not> is_next_link a"
      by (simp_all add: id_of_def is_next_link_def)
    with h Some Cons.IH[OF rest] show ?thesis
      by (simp add: re_search_id_tail listing_ids_def List.map_filter_simps listing_next_def)
  next
    case None
    with h have i: "id_of a = None" by (simp add: id_of_def)
    show ?thesis
    proof (cases "re_search_next (anchor_text a)")
      case True
      with i have "is_next_link a" by (simp add: is_next_link_def)
      with h None True i Cons.IH[OF rest] show ?thesis
        by (simp add: re_search_id_tail listing_ids_def List.map_filter_simps listing_next_def Let_def)
    next
      case False
      with i have "\<not> is_next_link a" by (simp add: is_next_link_def)
      with h None False i Cons.IH[OF rest] show ?thesis
        by (simp add: re_search_id_tail listing_ids_def List.map_filter_simps listing_next_def)
    qed
  qed
qed

lemma scan_anchors_missing_href:
  assumes "\<exists>a\<in>set as. href a = None"
  shows "scan_anchors as st = Inl TypeError"
  using assms
proof (induction as arbitrary: st)
  case Nil
  then show ?case by simp
next
  case (Cons a as)
  obtain ids nxt where st: "st = (ids, nxt)" by (cases st)
  show ?case
  proof (cases "href a")
    case None
    then show ?thesis by (simp add: st)
  next
    case (Some h)
    with Cons.prems have "\<exists>a\<in>set as. href a = None" by auto
    from Cons.IH[OF this] Some show ?thesis
      by (simp add: st split: option.splits)
  qed
qed

text \<open>The text of an anchor matches when it contains the words and a number between them.\<close>

lemma space_not_digit: "\<not> is_digit (CHR '' '')"
  by (simp add: is_digit_def)

lemma next_here_iff:
  "next_here s \<longleftrightarrow>
     (\<exists>ds post. s = ''Next '' @ ds @ '' articles'' @ post \<and> ds \<noteq> [] \<and> list_all is_digit ds)"
proof
  assume n: "next_here s"
  define r where "r = drop 5 s"
  define ds where "ds = takeWhile is_digit r"
  define rest where "rest = dropWhile is_digit r"
  from n have t: "take 5 s = ''Next ''" and d: "ds \<noteq> []" and a: "take 9 rest = '' articles''"
    by (simp_all add: next_here_def r_def ds_def rest_def)
  have "s = take 5 s @ r" by (simp add: r_def)
  moreover have "r = ds @ rest" by (simp add: ds_def rest_def)
  moreover have "rest = take 9 rest @ drop 9 rest" by simp
  ultimately have "s = ''Next '' @ ds @ '' articles'' @ drop 9 rest"
    using t a by metis
  moreover have "list_all is_digit ds"
    using set_takeWhileD[of _ is_digit r] by (auto simp: ds_def list_all_iff)
  ultimately show "\<exists>ds post. s = ''Next '' @ ds @ '' articles'' @ post \<and> ds \<noteq> [] \<and> list_all is_digit ds"
    using d by blast
next
  assume "\<exists>ds post. s = ''Next '' @ ds @ '' articles'' @ post \<and> ds \<noteq> [] \<and> list_all is_digit ds"
  then obtain ds post where s: "s = ''Next '' @ ds @ '' articles'' @ post"
    and d: "ds \<noteq> []" and a: "list_all is_digit ds" by blast
  have r: "drop 5 s = ds @ CHR '' '' # (''articles'' @ post)" by (simp add: s)
  from a have a': "\<forall>x\<in>set ds. is_digit x" by (simp add: list_all_iff)
  have tw: "takeWhile is_digit (drop 5 s) = ds"
    unfolding r using a' space_not_digit by (simp add: takeWhile_append2)
  have dw: "dropWhile is_digit (drop 5 s) = CHR '' '' # (''articles'' @ post)"
    unfolding r using a' space_not_digit by (simp add: dropWhile_append2)
  have "take 5 s = ''Next ''" by (simp add: s)
  with tw dw d show "next_here s" by (simp add: next_here_def)
qed

lemma re_search_next_iff_suffix:
  "re_search_next t \<longleftrightarrow> (\<exists>pre suf. t = pre @ suf \<and> next_here suf)"
proof (induction t)
  case Nil
  then show ?case by (simp add: next_here_def)
next
  case (Cons c cs)
  show ?case
  proof
    assume "re_search_next (c # cs)"
    then consider "next_here (c # cs)" | "re_search_next cs" by auto
    then show "\<exists>pre suf. c # cs = pre @ suf \<and> next_here suf"
    proof cases
      case 1
      then have "c # cs = [] @ (c # cs) \<and> next_here (c # cs)" by simp
      then show ?thesis by blast
    next
      case 2
      with Cons.IH obtain pre suf where "cs = pre @ suf" "next_here suf" by blast
      then have "c # cs = (c # pre) @ suf \<and> next_here suf" by simp
      then show ?thesis by blast
    qed
  next
    assume "\<exists>pre suf. c # cs = pre @ suf \<and> next_here suf"
    then obtain pre suf where e: "c # cs = pre @ suf" and n: "next_here suf" by blast
    show "re_search_next (c # cs)"
    proof (cases pre)
      case Nil
      with e have "suf = c # cs" by simp
      with n show ?thesis by simp
    next
      case (Cons b q)
      with e have "cs = q @ suf" by simp
      with n Cons.IH show ?thesis by auto
    qed
  qed
qed

lemma re_search_next_iff:
  "re_search_next t \<longleftrightarrow>
     (\<exists>pre ds post. t = pre @ ''Next '' @ ds @ '' articles'' @ post \<and> ds \<noteq> [] \<and> list_all is_digit ds)"
  unfolding re_search_next_iff_suffix next_here_iff by blast

lemma fetch_closed_form:
  assumes "w url = Inr page" and "\<forall>a\<in>set (anchors page). href a \<noteq> None"
  shows "fetchDocIdAndNextPage w url = Inr (listing_ids (anchors page), listing_next (anchors page))"
  using assms(1) scan_anchors_closed_form[OF assms(2), of "[]" "[]"]
  by (simp add: fetchDocIdAndNextPage_def listing_next_def)

text \<open>
  Claim C3, as amended. On a listing page all of whose anchors have a link target, the
  parser returns, in document order and with duplicates kept, the last six characters of
  every link target that ends in six digits (one final newline aside), whatever comes
  before them, together with the link target of the last anchor whose link target does not
  end in six digits and whose text contains \<^verbatim>\<open>Next <N> articles\<close>, or the empty
  string when there is no such anchor.
\<close>

theorem listing_parser_result:
  assumes "w url = Inr page" and "\<forall>a\<in>set (anchors page). href a \<noteq> None"
  shows "fetchDocIdAndNextPage w url = Inr (listing_ids (anchors page), listing_next (anchors page))"
  using assms by (rule fetch_closed_form)

lemma listing_scenario_hrefs: "\<forall>a\<in>set (anchors listing_scenario). href a \<noteq> None"
  by (simp add: listing_scenario_def)

lemma listing_scenario_ids: "listing_ids (anchors listing_scenario) = [''004512'', ''004513'']"
  by code_simp

lemma listing_scenario_next: "listing_next (anchors listing_scenario) = ''/lingbuzz?start=50''"
  by code_simp

theorem listing_parser_result_witness:
  "fetchDocIdAndNextPage (\<lambda>url. Inr listing_scenario) (url_base @ ''/lingbuzz'') =
     Inr ([''004512'', ''004513''], ''/lingbuzz?start=50'')"
  using listing_parser_result[of "\<lambda>url. Inr listing_scenario" "url_base @ ''/lingbuzz''" listing_scenario]
    listing_scenario_hrefs listing_scenario_ids listing_scenario_next
  by simp

text \<open>
  Claim C3, as stated, fails: the trailing path segment of \<^verbatim>\<open>/lingbuzz/0045123\<close> is a
  run of seven digits, not an identifier in the words of the specification, and the parser
  returns the identifier \<^verbatim>\<open>045123\<close> for it.
\<close>

theorem longer_digit_run_gives_id:
  "spec_doc_id ''/lingbuzz/0045123'' = None \<and>
   fetchDocIdAndNextPage (\<lambda>url. Inr long_run_listing) ''http://lingbuzz.auf.net/lingbuzz'' =
     Inr ([''045123''], [])"
  by code_simp

lemma listing_ids_append: "listing_ids (xs @ ys) = listing_ids xs @ listing_ids ys"
  by (simp add: listing_ids_def List.map_filter_def)

text \<open>
  Claim C9. An anchor whose link target ends in six digits and whose text matches
  \<^verbatim>\<open>Next <N> articles\<close> is recorded as an identifier, and the next-page path is the
  one of the page without this anchor; so the path can be empty on a page that has such
  an anchor.
\<close>

theorem id_match_precedes_next_match:
  assumes "w url = Inr page" and "anchors page = pre @ a # post"
    and "\<forall>b\<in>set (anchors page). href b \<noteq> None"
    and "href a = Some h" and "re_search_id h = Some g" and "re_search_next (anchor_text a)"
  shows "fetchDocIdAndNextPage w url =
           Inr (listing_ids pre @ g # listing_ids post, listing_next (pre @ post))"
proof -
  from assms(4,5) have i: "id_of a = Some g"
    by (simp add: id_of_def re_search_id_tail)
  then have "\<not> is_next_link a" by (simp add: is_next_link_def)
  then have n: "listing_next (pre @ a # post) = listing_next (pre @ post)"
    by (simp add: listing_next_def)
  from i have "listing_ids [a] = [g]"
    by (simp add: listing_ids_def List.map_filter_simps)
  then have "listing_ids (pre @ [a] @ post) = listing_ids pre @ g # listing_ids post"
    by (simp only: listing_ids_append) simp
  with n fetch_closed_form[of w url page] assms(1,2,3) show ?thesis by simp
qed

theorem id_match_precedes_next_match_witness:
  "re_search_next ''Next 100 articles'' \<and>
   fetchDocIdAndNextPage (\<lambda>url. Inr shadowed_next_listing) (url_base @ ''/lingbuzz'') =
     Inr ([''004512'', ''100000''], [])"
proof -
  let ?a = "\<lparr>href = Some ''/lingbuzz?start=100000'', anchor_text = ''Next 100 articles''\<rparr>"
  let ?pre = "[\<lparr>href = Some ''/lingbuzz/004512'', anchor_text = ''A first paper''\<rparr>]"
  have 1: "anchors shadowed_next_listing = ?pre @ ?a # []" by (simp add: shadowed_next_listing_def)
  have 2: "\<forall>b\<in>set (anchors shadowed_next_listing). href b \<noteq> None" by (simp add: shadowed_next_listing_def)
  have 3: "re_search_id ''/lingbuzz?start=100000'' = Some ''100000''" by code_simp
  have 4: "re_search_next ''Next 100 articles''" by code_simp
  have 5: "listing_ids ?pre = [''004512'']" by code_simp
  have 6: "listing_next (?pre @ []) = []" by code_simp
  have 7: "listing_ids [] = []" by code_simp
  from id_match_precedes_next_match[of "\<lambda>url. Inr shadowed_next_listing" "url_base @ ''/lingbuzz''"
      shadowed_next_listing ?pre ?a "[]" "''/lingbuzz?start=100000''" "''100000''"] 1 2 3 4 5 6 7
  show ?thesis by simp
qed

section \<open>The crawl driver: properties\<close>

lemma dict_set_absent: "\<not> has_key k d \<Longrightarrow> dict_set k v d = d @ [(k, v)]"
  by (induction d) (auto simp: has_key_def)

lemma grows_by_refl: "grows_by st st [] []"
  by (simp add: grows_by_def)

lemma grows_by_trans:
  assumes "grows_by st st1 new1 added1" and "map fst added1 = new1"
    and "grows_by st1 st2 new2 added2"
  shows "grows_by st st2 (new1 @ new2) (added1 @ added2)"
proof -
  from assms(1) have a: "fetched st1 = fetched st @ new1" "ref_dict st1 = ref_dict st @ added1"
    "list_all (\<lambda>k. \<not> has_key k (ref_dict st)) new1" "distinct new1"
    by (simp_all add: grows_by_def)
  from assms(3) have b: "fetched st2 = fetched st1 @ new2" "ref_dict st2 = ref_dict st1 @ added2"
    "list_all (\<lambda>k. \<not> has_key k (ref_dict st1)) new2" "distinct new2"
    "map fst added2 = take (length added2) new2"
    by (simp_all add: grows_by_def)
  from assms(2) have l: "length added1 = length new1" by (metis length_map)
  from b(3) a(2) assms(2) have c: "list_all (\<lambda>k. \<not> has_key k (ref_dict st)) new2" "set new1 \<inter> set new2 = {}"
    by (auto simp: list_all_iff has_key_def)
  from a b c l assms(2) show ?thesis
    by (simp add: grows_by_def)
qed

lemma process_ids_grows:
  "process_ids w ids st = (err, st') \<Longrightarrow>
     \<exists>new added. grows_by st st' new added \<and> (err = None \<longrightarrow> map fst added = new) \<and>
       next_page st' = next_page st \<and> list_url st' = list_url st"
proof (induction ids arbitrary: st)
  case Nil
  then have "st' = st" "err = None" by simp_all
  with grows_by_refl[of st] have "grows_by st st' [] [] \<and> (err = None \<longrightarrow> map fst ([] :: store) = [])
      \<and> next_page st' = next_page st \<and> list_url st' = list_url st" by simp
  then show ?case by blast
next
  case (Cons i ids)
  show ?case
  proof (cases "has_key i (ref_dict st)")
    case True
    with Cons.prems have "process_ids w ids st = (err, st')" by simp
    from Cons.IH[OF this] show ?thesis .
  next
    case False
    let ?st1 = "st\<lparr>fetched := fetched st @ [i]\<rparr>"
    have g1: "grows_by st ?st1 [i] []"
      using False by (simp add: grows_by_def)
    show ?thesis
    proof (cases "fetch_doc w i")
      case (Inl e)
      with False Cons.prems have "st' = ?st1" "err = Some e" by (simp_all add: Let_def)
      with g1 have "grows_by st st' [i] [] \<and> (err = None \<longrightarrow> map fst ([] :: store) = [i])
          \<and> next_page st' = next_page st \<and> list_url st' = list_url st" by simp
      then show ?thesis by blast
    next
      case (Inr doc)
      show ?thesis
      proof (cases "parse_doc (soup_of doc) i")
        case (Inl e)
        with False Inr Cons.prems have "st' = ?st1" "err = Some e" by (simp_all add: Let_def)
        with g1 have "grows_by st st' [i] [] \<and> (err = None \<longrightarrow> map fst ([] :: store) = [i])
            \<and> next_page st' = next_page st \<and> list_url st' = list_url st" by simp
        then show ?thesis by blast
      next
        case (Inr a)
        let ?st2 = "?st1\<lparr>ref_dict := dict_set i a (ref_dict ?st1)\<rparr>"
        from False \<open>fetch_doc w i = Inr doc\<close> Inr Cons.prems
        have "process_ids w ids ?st2 = (err, st')" by (simp add: Let_def)
        from Cons.IH[OF this] obtain new added where
          g: "grows_by ?st2 st' new added" and e: "err = None \<longrightarrow> map fst added = new"
          and n: "next_page st' = next_page st" "list_url st' = list_url st"
          by auto
        have g2: "grows_by st ?st2 [i] [(i, a)]"
          using False by (simp add: grows_by_def dict_set_absent)
        from grows_by_trans[OF g2 _ g] have "grows_by st st' ([i] @ new) ([(i, a)] @ added)" by simp
        moreover from e have "err = None \<longrightarrow> map fst ([(i, a)] @ added) = [i] @ new" by simp
        ultimately show ?thesis using n by blast
      qed
    qed
  qed
qed

lemma grows_by_ignores:
  "grows_by (st\<lparr>next_page := p, list_url := l\<rparr>) st' new added = grows_by st st' new added"
  by (simp add: grows_by_def)

lemma crawl_loop_grows:
  "crawl_loop n w st = Some (err, st') \<Longrightarrow>
     \<exists>new added. grows_by st st' new added \<and> (err = None \<longrightarrow> map fst added = new)"
proof (induction n arbitrary: st)
  case 0
  then show ?case by simp
next
  case (Suc n)
  show ?case
  proof (cases "fetchDocIdAndNextPage w (next_page st)")
    case (Inl e)
    with Suc.prems have "st' = st" by simp
    with grows_by_refl[of st] have "grows_by st st' [] [] \<and> (err = None \<longrightarrow> map fst ([] :: store) = [])"
      by simp
    then show ?thesis by blast
  next
    case (Inr res)
    obtain id_list next_url where res: "res = (id_list, next_url)" by (cases res)
    show ?thesis
    proof (cases "next_url = []")
      case True
      with Inr res Suc.prems have "st' = st" by simp
      with grows_by_refl[of st] have "grows_by st st' [] [] \<and> (err = None \<longrightarrow> map fst ([] :: store) = [])"
        by simp
      then show ?thesis by blast
    next
      case False
      let ?st0 = "st\<lparr>next_page := url_base @ next_url, list_url := list_url st @ [next_url]\<rparr>"
      obtain e1 st1 where p: "process_ids w id_list ?st0 = (e1, st1)"
        by (cases "process_ids w id_list ?st0")
      from process_ids_grows[OF p] obtain new1 added1 where
        g1: "grows_by st st1 new1 added1" and m1: "e1 = None \<longrightarrow> map fst added1 = new1"
        by (auto simp: grows_by_ignores)
      show ?thesis
      proof (cases e1)
        case None
        with Inr res False p Suc.prems have "crawl_loop n w st1 = Some (err, st')" by simp
        from Suc.IH[OF this] obtain new2 added2 where
          g2: "grows_by st1 st' new2 added2" and m2: "err = None \<longrightarrow> map fst added2 = new2"
          by auto
        from m1 None have m: "map fst added1 = new1" by simp
        from grows_by_trans[OF g1 m g2] have "grows_by st st' (new1 @ new2) (added1 @ added2)" .
        moreover from m m2 have "err = None \<longrightarrow> map fst (added1 @ added2) = new1 @ new2" by simp
        ultimately show ?thesis by blast
      next
        case (Some e)
        with Inr res False p Suc.prems have "st' = st1" "err = Some e" by simp_all
        with g1 have "grows_by st st' new1 added1 \<and> (err = None \<longrightarrow> map fst added1 = new1)" by simp
        then show ?thesis by blast
      qed
    qed
  qed
qed

lemma grows_by_keys:
  "grows_by st st' new added \<Longrightarrow> has_key k (ref_dict st) \<Longrightarrow> has_key k (ref_dict st')"
  by (auto simp: grows_by_def has_key_def)

lemma process_ids_keys:
  "process_ids w ids st = (None, st') \<Longrightarrow> list_all (\<lambda>i. has_key i (ref_dict st')) ids"
proof (induction ids arbitrary: st)
  case Nil
  then show ?case by simp
next
  case (Cons i ids)
  show ?case
  proof (cases "has_key i (ref_dict st)")
    case True
    with Cons.prems have p: "process_ids w ids st = (None, st')" by simp
    from process_ids_grows[OF p] True have "has_key i (ref_dict st')"
      using grows_by_keys by blast
    with Cons.IH[OF p] show ?thesis by simp
  next
    case False
    with Cons.prems obtain doc a where
      p: "process_ids w ids (st\<lparr>fetched := fetched st @ [i], ref_dict := dict_set i a (ref_dict st)\<rparr>) = (None, st')"
      by (auto simp: Let_def split: sum.splits)
    have "has_key i (dict_set i a (ref_dict st))"
      using False by (simp add: dict_set_absent has_key_def)
    with process_ids_grows[OF p] have "has_key i (ref_dict st')"
      using grows_by_keys[of _ st' _ _ i] by fastforce
    with Cons.IH[OF p] show ?thesis by simp
  qed
qed

lemma process_ids_known:
  "list_all (\<lambda>i. has_key i (ref_dict st)) ids \<Longrightarrow> process_ids w ids st = (None, st)"
  by (induction ids) simp_all

lemma crawl_again:
  assumes "crawl_loop n w st = Some (None, st')"
    and "\<And>k. has_key k (ref_dict st') \<Longrightarrow> has_key k d"
  shows "crawl_loop n w (st\<lparr>ref_dict := d, fetched := f\<rparr>) = Some (None, st'\<lparr>ref_dict := d, fetched := f\<rparr>)"
  using assms
proof (induction n arbitrary: st)
  case 0
  then show ?case by simp
next
  case (Suc n)
  from Suc.prems(1) obtain id_list next_url where
    l: "fetchDocIdAndNextPage w (next_page st) = Inr (id_list, next_url)"
    by (cases "fetchDocIdAndNextPage w (next_page st)") auto
  show ?case
  proof (cases "next_url = []")
    case True
    with l Suc.prems(1) show ?thesis by simp
  next
    case False
    let ?st0 = "st\<lparr>next_page := url_base @ next_url, list_url := list_url st @ [next_url]\<rparr>"
    from l False Suc.prems(1) obtain st1 where
      p: "process_ids w id_list ?st0 = (None, st1)" and c: "crawl_loop n w st1 = Some (None, st')"
      by (auto split: prod.splits option.splits)
    from crawl_loop_grows[OF c] have k1: "\<And>k. has_key k (ref_dict st1) \<Longrightarrow> has_key k (ref_dict st')"
      using grows_by_keys by blast
    from process_ids_keys[OF p] k1 Suc.prems(2)
    have "list_all (\<lambda>i. has_key i d) id_list" by (auto simp: list_all_iff)
    let ?X = "(st\<lparr>ref_dict := d, fetched := f\<rparr>)\<lparr>next_page := url_base @ next_url,
                 list_url := list_url st @ [next_url]\<rparr>"
    have pX: "process_ids w id_list ?X = (None, ?X)"
      using \<open>list_all (\<lambda>i. has_key i d) id_list\<close> by (intro process_ids_known) simp
    from process_ids_grows[OF p] have "next_page st1 = url_base @ next_url"
      "list_url st1 = list_url st @ [next_url]"
      by auto
    then have X: "?X = st1\<lparr>ref_dict := d, fetched := f\<rparr>"
      by (cases st1) simp
    have "crawl_loop (Suc n) w (st\<lparr>ref_dict := d, fetched := f\<rparr>) = crawl_loop n w ?X"
      using l False pX by simp
    also have "\<dots> = crawl_loop n w (st1\<lparr>ref_dict := d, fetched := f\<rparr>)"
      by (simp only: X)
    also have "\<dots> = Some (None, st'\<lparr>ref_dict := d, fetched := f\<rparr>)"
      using Suc.IH[OF c Suc.prems(2)] by simp
    finally show ?thesis .
  qed
qed

lemma normalization_pass_keys: "normalization_pass d = Inr d' \<Longrightarrow> map fst d' = map fst d"
proof (induction d arbitrary: d')
  case Nil
  then show ?case by simp
next
  case (Cons kv d)
  obtain k v where kv: "kv = (k, v)" by (cases kv)
  from Cons.prems kv obtain r' rest' where
    "normalization_pass d = Inr rest'" "d' = (k, Some r') # rest'"
    by (auto split: option.splits sum.splits)
  with Cons.IH[of rest'] kv show ?case by simp
qed

lemma run_again:
  assumes "run n w d = Some (Inr d1)" and "counts_are_int d1"
  shows "run n w d1 = Some (Inr d1)"
proof -
  from assms obtain st' where
    c: "crawl_loop n w (initial_state d) = Some (None, st')" and
    p: "normalization_pass (ref_dict st') = Inr d1"
    by (auto simp: run_def split: option.splits prod.splits sum.splits)
  from normalization_pass_keys[OF p] have "\<And>k. has_key k (ref_dict st') \<Longrightarrow> has_key k d1"
    by (simp add: has_key_def)
  from crawl_again[OF c this, of "[]"]
  have "crawl_loop n w (initial_state d1) = Some (None, st'\<lparr>ref_dict := d1, fetched := []\<rparr>)"
    by (simp add: initial_state_def)
  with normalization_pass_idem[OF p assms(2)] show ?thesis
    by (simp add: run_def)
qed

text \<open>
  Claim C6. In a run of the driver loop, complete or cut by an exception, the store only
  grows at its end: every entry it had is kept with its record, the entries appended have
  identifiers that were not in the store, and distinct keys stay distinct. No identifier
  that was in the store is fetched, and none is fetched twice. After a complete crawl, a
  second crawl of the same site from the store reached fetches nothing and leaves the
  store as it is.
\<close>

theorem existing_entries_kept:
  "(crawl_loop n w st = Some (err, st') \<longrightarrow>
      (\<exists>new added.
         fetched st' = fetched st @ new \<and> ref_dict st' = ref_dict st @ added \<and>
         list_all (\<lambda>k. \<not> has_key k (ref_dict st)) new \<and> distinct new \<and>
         map fst added = take (length added) new \<and> (err = None \<longrightarrow> map fst added = new)) \<and>
      (\<forall>k. has_key k (ref_dict st) \<longrightarrow> map_of (ref_dict st') k = map_of (ref_dict st) k) \<and>
      (distinct (map fst (ref_dict st)) \<longrightarrow> distinct (map fst (ref_dict st')))) \<and>
   (crawl_loop n w st = Some (None, st') \<longrightarrow>
      crawl_loop n w (st\<lparr>ref_dict := ref_dict st'\<rparr>) = Some (None, st'\<lparr>fetched := fetched st\<rparr>))"
proof (intro conjI impI)
  assume c: "crawl_loop n w st = Some (err, st')"
  from crawl_loop_grows[OF c] obtain new added where
    g: "grows_by st st' new added" and m: "err = None \<longrightarrow> map fst added = new" by blast
  from g have f: "fetched st' = fetched st @ new" "ref_dict st' = ref_dict st @ added"
    "list_all (\<lambda>k. \<not> has_key k (ref_dict st)) new" "distinct new"
    "map fst added = take (length added) new"
    by (simp_all add: grows_by_def)
  with m show "\<exists>new added.
         fetched st' = fetched st @ new \<and> ref_dict st' = ref_dict st @ added \<and>
         list_all (\<lambda>k. \<not> has_key k (ref_dict st)) new \<and> distinct new \<and>
         map fst added = take (length added) new \<and> (err = None \<longrightarrow> map fst added = new)"
    by blast
  show "\<forall>k. has_key k (ref_dict st) \<longrightarrow> map_of (ref_dict st') k = map_of (ref_dict st) k"
  proof (intro allI impI)
    fix k
    assume "has_key k (ref_dict st)"
    then have "k \<in> dom (map_of (ref_dict st))"
      by (simp add: has_key_def dom_map_of_conv_image_fst)
    then show "map_of (ref_dict st') k = map_of (ref_dict st) k"
      by (simp add: f(2) map_add_dom_app_simps(1))
  qed
  have s: "set (map fst added) \<subseteq> set new"
    using f(5) by (metis set_take_subset)
  have d: "distinct (map fst added)"
    using f(4,5) by (metis distinct_take)
  assume "distinct (map fst (ref_dict st))"
  with f(2,3) s d show "distinct (map fst (ref_dict st'))"
    by (auto simp: list_all_iff has_key_def)
next
  assume c: "crawl_loop n w st = Some (None, st')"
  from crawl_again[OF c, of "ref_dict st'" "fetched st"]
  show "crawl_loop n w (st\<lparr>ref_dict := ref_dict st'\<rparr>) = Some (None, st'\<lparr>fetched := fetched st\<rparr>)"
    by simp
qed

lemma crawl_loop_final_page:
  "fetchDocIdAndNextPage w (next_page st) = Inr (id_list, []) \<Longrightarrow>
     crawl_loop (Suc n) w st = Some (None, st)"
  by simp

text \<open>
  Claim C2 says that every identifier extracted from a processed listing page, the final
  page included, is fetched, parsed and stored before the normalization. On the site of two
  pages the final page yields the identifier 004513 and an empty next-page path; the
  driver loop ends there with 004512 and 004510 in the store, and 004513 is neither
  fetched nor stored, in the loop or in the store the run saves.
\<close>

theorem final_page_skipped:
  "fetchDocIdAndNextPage two_page_site ''http://lingbuzz.auf.net/lingbuzz?start=31'' = Inr ([''004513''], []) \<and>
   crawl_loop 5 two_page_site (initial_state []) =
     Some (None, \<lparr>next_page = ''http://lingbuzz.auf.net/lingbuzz?start=31'',
                    list_url = [''/lingbuzz?start=31''],
                    ref_dict = [(''004512'', Some sample_raw),
                                (''004510'', Some (sample_raw\<lparr>ref := ''004510''\<rparr>))],
                    fetched = [''004512'', ''004510'']\<rparr>) \<and>
   run 5 two_page_site [] =
     Some (Inr [(''004512'', Some sample_normalized),
                (''004510'', Some (sample_normalized\<lparr>ref := ''004510''\<rparr>))])"
  by code_simp

lemma older_store_crawl:
  "crawl_loop 5 two_page_site (initial_state older_store) =
     Some (None, \<lparr>next_page = ''http://lingbuzz.auf.net/lingbuzz?start=31'',
                    list_url = [''/lingbuzz?start=31''],
                    ref_dict = [(''004510'', Some older_record), (''004512'', Some sample_raw)],
                    fetched = [''004512'']\<rparr>)"
  by code_simp

theorem existing_entries_kept_witness:
  "crawl_loop 5 two_page_site (initial_state older_store) =
     Some (None, \<lparr>next_page = ''http://lingbuzz.auf.net/lingbuzz?start=31'',
                    list_url = [''/lingbuzz?start=31''],
                    ref_dict = [(''004510'', Some older_record), (''004512'', Some sample_raw)],
                    fetched = [''004512'']\<rparr>) \<and>
   has_key ''004510'' older_store \<and>
   map_of [(''004510'', Some older_record), (''004512'', Some sample_raw)] ''004510'' =
     map_of older_store ''004510'' \<and>
   distinct (map fst [(''004510'', Some older_record), (''004512'', Some sample_raw)]) \<and>
   crawl_loop 5 two_page_site
       (initial_state [(''004510'', Some older_record), (''004512'', Some sample_raw)]) =
     Some (None, \<lparr>next_page = ''http://lingbuzz.auf.net/lingbuzz?start=31'',
                    list_url = [''/lingbuzz?start=31''],
                    ref_dict = [(''004510'', Some older_record), (''004512'', Some sample_raw)],
                    fetched = []\<rparr>)"
proof -
  let ?S = "\<lparr>next_page = ''http://lingbuzz.auf.net/lingbuzz?start=31'',
              list_url = [''/lingbuzz?start=31''],
              ref_dict = [(''004510'', Some older_record), (''004512'', Some sample_raw)],
              fetched = [''004512'']\<rparr>"
  note t = existing_entries_kept[of 5 two_page_site "initial_state older_store" None ?S]
  have k: "has_key ''004510'' older_store" by (simp add: has_key_def older_store_def)
  have m: "map_of [(''004510'', Some older_record), (''004512'', Some sample_raw)] ''004510'' =
     map_of older_store ''004510''" by (simp add: older_store_def)
  from t older_store_crawl
  have "crawl_loop 5 two_page_site ((initial_state older_store)\<lparr>ref_dict := ref_dict ?S\<rparr>) =
          Some (None, ?S\<lparr>fetched := fetched (initial_state older_store)\<rparr>)"
    by blast
  then have r: "crawl_loop 5 two_page_site
       (initial_state [(''004510'', Some older_record), (''004512'', Some sample_raw)]) =
     Some (None, ?S\<lparr>fetched := []\<rparr>)"
    by (simp add: initial_state_def)
  have d: "distinct (map fst [(''004510'', Some older_record), (''004512'', Some sample_raw)])" by simp
  from older_store_crawl k m d r show ?thesis by simp
qed

section \<open>The persisted snapshot: properties\<close>

lemma read_strings_map: "read_strings (map JStr xs) = Some xs"
  by (induction xs) simp_all

lemma read_record_snapshot: "read_record (record_snapshot r) = Some r"
proof -
  have c: "read_cnt (case cnt r of CntInt n \<Rightarrow> JInt n | CntStr s \<Rightarrow> JStr s) = Some (cnt r)"
    by (cases "cnt r") (simp_all add: read_cnt_def)
  have k: "read_kwd (case kwd r of KwdList ks \<Rightarrow> JArr (map JStr ks) | KwdStr s \<Rightarrow> JStr s) = Some (kwd r)"
    by (cases "kwd r") (simp_all add: read_kwd_def read_strings_map)
  show ?thesis
    by (simp add: read_record_def record_snapshot_def field_def read_str_def read_str_list_def
                  read_strings_map c k)
qed

lemma read_entry_snapshot:
  "read_entry (case v of None \<Rightarrow> JNull | Some r \<Rightarrow> record_snapshot r) = Some v"
proof (cases v)
  case None
  then show ?thesis by (simp add: read_entry_def)
next
  case (Some r)
  have "read_entry (record_snapshot r) = map_option Some (read_record (record_snapshot r))"
    by (simp add: read_entry_def record_snapshot_def)
  with Some show ?thesis by (simp add: read_record_snapshot)
qed

lemma read_entries_snapshot:
  assumes "distinct (map fst M)" and "\<forall>k\<in>set (map fst M). \<not> has_key k d"
  shows "read_entries (map (\<lambda>kv. (fst kv, case snd kv of None \<Rightarrow> JNull | Some r \<Rightarrow> record_snapshot r)) M) d
           = Some (d @ M)"
  using assms
proof (induction M arbitrary: d)
  case Nil
  then show ?case by simp
next
  case (Cons kv M)
  obtain k v where kv: "kv = (k, v)" by (cases kv)
  from Cons.prems kv have nk: "\<not> has_key k d" by simp
  from Cons.prems kv have d: "distinct (map fst M)" and
    f: "\<forall>k'\<in>set (map fst M). \<not> has_key k' (d @ [(k, v)])"
    by (auto simp: has_key_def)
  from Cons.IH[OF d f] nk kv show ?case
    by (simp add: read_entry_snapshot dict_set_absent)
qed

lemma load_save:
  assumes "distinct (map fst M)"
  shows "load (save M file) = Some M"
  using read_entries_snapshot[OF assms, of "[]"]
  by (simp add: load_def save_def snapshot_def has_key_def)

text \<open>
  Claim C8. For a store \<open>M\<close> with distinct identifiers, in particular for a non-empty
  mapping of valid records, loading the snapshot that \<open>save\<close> wrote gives \<open>M\<close> again,
  and loading it and saving again without crawling writes the same snapshot.
\<close>

theorem snapshot_round_trip:
  assumes "distinct (map fst M)"
  shows "load (save M file) = Some M \<and>
         map_option (\<lambda>M'. save M' (save M file)) (load (save M file)) = Some (save M file)"
  using load_save[OF assms] by (simp add: save_def)

theorem snapshot_round_trip_witness:
  "distinct (map fst [(''004510'', Some older_record), (''004512'', Some sample_normalized)]) \<and>
   load (save [(''004510'', Some older_record), (''004512'', Some sample_normalized)] None) =
     Some [(''004510'', Some older_record), (''004512'', Some sample_normalized)] \<and>
   map_option (\<lambda>M'. save M' (save [(''004510'', Some older_record), (''004512'', Some sample_normalized)] None))
     (load (save [(''004510'', Some older_record), (''004512'', Some sample_normalized)] None)) =
     Some (save [(''004510'', Some older_record), (''004512'', Some sample_normalized)] None)"
proof -
  have d: "distinct (map fst [(''004510'', Some older_record), (''004512'', Some sample_normalized)])"
    by simp
  from snapshot_round_trip[OF d, of None] d show ?thesis by blast
qed

end
